theory Spec2Isabelle
  imports Complex_Main
begin

section \<open>Numbers of the program\<close>

text \<open>
  The program computes with double-precision floats (Python floats and NumPy float64
  scalars). A float is modelled as a real number or one of the special values of
  IEEE 754: the negative zero, the two infinities and NaN (\<open>Fin 0\<close> is the positive
  zero). The special values, the signs of zeros and the exceptions follow IEEE 754 as
  Python and NumPy apply it. The arithmetic on finite values is exact: a sum, product,
  quotient or power of finite non-zero values is the real number, where a double would
  be rounded, would overflow to an infinity or underflow to a zero. The statements
  about values are therefore made through these operations, or are inequalities that
  rounding preserves, and the real number inside a \<open>Fin\<close> is the double of the code
  only up to that rounding.
\<close>

datatype npfloat = Fin real | NZero | PInf | NInf | NaN

datatype error = ValueError | IndexError | ZeroDivisionError | OverflowError

fun the_real :: "npfloat \<Rightarrow> real" where
  "the_real (Fin a) = a"
| "the_real x = 0"

fun negative :: "npfloat \<Rightarrow> bool" where
  "negative (Fin a) = (a < 0)"
| "negative NZero = True"
| "negative NInf = True"
| "negative x = False"

definition is_zero :: "npfloat \<Rightarrow> bool" where
  "is_zero x \<longleftrightarrow> x = Fin 0 \<or> x = NZero"

definition is_inf :: "npfloat \<Rightarrow> bool" where
  "is_inf x \<longleftrightarrow> x = PInf \<or> x = NInf"

definition signed_zero :: "bool \<Rightarrow> npfloat" where
  "signed_zero neg = (if neg then NZero else Fin 0)"

definition signed_inf :: "bool \<Rightarrow> npfloat" where
  "signed_inf neg = (if neg then NInf else PInf)"

fun fneg :: "npfloat \<Rightarrow> npfloat" where
  "fneg (Fin a) = (if a = 0 then NZero else Fin (- a))"
| "fneg NZero = Fin 0"
| "fneg PInf = NInf"
| "fneg NInf = PInf"
| "fneg NaN = NaN"

text \<open>
  Addition: infinities of opposite signs give NaN; a sum that is zero is the positive
  zero unless both summands are the negative zero.
\<close>

definition fadd :: "npfloat \<Rightarrow> npfloat \<Rightarrow> npfloat" where
  "fadd x y =
     (if x = NaN \<or> y = NaN then NaN
      else if is_inf x \<and> is_inf y then (if x = y then x else NaN)
      else if is_inf x then x
      else if is_inf y then y
      else if x = NZero \<and> y = NZero then NZero
      else Fin (the_real x + the_real y))"

definition fsub :: "npfloat \<Rightarrow> npfloat \<Rightarrow> npfloat" where
  "fsub x y = fadd x (fneg y)"

text \<open>
  Multiplication: the sign of the product is the exclusive or of the signs; zero times
  an infinity is NaN.
\<close>

definition fmul :: "npfloat \<Rightarrow> npfloat \<Rightarrow> npfloat" where
  "fmul x y =
     (if x = NaN \<or> y = NaN then NaN
      else if (is_inf x \<and> is_zero y) \<or> (is_zero x \<and> is_inf y) then NaN
      else if is_inf x \<or> is_inf y then signed_inf (negative x \<noteq> negative y)
      else if is_zero x \<or> is_zero y then signed_zero (negative x \<noteq> negative y)
      else Fin (the_real x * the_real y))"

text \<open>
  NumPy's true division of float64 scalars: a non-zero value over a zero is an infinity,
  a zero over a zero and an infinity over an infinity are NaN, and no exception is
  raised.
\<close>

definition fdiv :: "npfloat \<Rightarrow> npfloat \<Rightarrow> npfloat" where
  "fdiv x y =
     (if x = NaN \<or> y = NaN then NaN
      else if (is_inf x \<and> is_inf y) \<or> (is_zero x \<and> is_zero y) then NaN
      else if is_inf x \<or> is_zero y then signed_inf (negative x \<noteq> negative y)
      else if is_zero x \<or> is_inf y then signed_zero (negative x \<noteq> negative y)
      else Fin (the_real x / the_real y))"

text \<open>
  The largest double is \<open>2 ^ 1024 - 2 ^ 971\<close>; a real number rounds to an infinity from
  \<open>2 ^ 1024 - 2 ^ 970\<close> on.
\<close>

definition double_overflow :: "real \<Rightarrow> bool" where
  "double_overflow x \<longleftrightarrow> 2 ^ 1024 - 2 ^ 970 \<le> \<bar>x\<bar>"

text \<open>
  Python's \<^verbatim>\<open>float ** int\<close>. The exponent is converted to a float first, which
  raises OverflowError for an integer out of the range of the doubles (the rounding of
  an exponent beyond \<open>2 ^ 53\<close> in that conversion is not modelled). Anything to the
  power 0 is 1.0 (NaN too), a zero to a negative power raises ZeroDivisionError, and a
  power of a finite base that leaves the range of the doubles raises OverflowError.
\<close>

definition py_pow :: "npfloat \<Rightarrow> int \<Rightarrow> error + npfloat" where
  "py_pow x n =
     (if double_overflow (real_of_int n) then Inl OverflowError
      else if n = 0 then Inr (Fin 1)
      else if x = NaN then Inr NaN
      else if is_inf x then
        Inr (if 0 < n then signed_inf (negative x \<and> odd n)
             else signed_zero (negative x \<and> odd n))
      else if is_zero x then
        (if n < 0 then Inl ZeroDivisionError else Inr (signed_zero (negative x \<and> odd n)))
      else
        let r = (if 0 < n then the_real x ^ nat n else 1 / the_real x ^ nat (- n))
        in if double_overflow r then Inl OverflowError else Inr (Fin r))"

text \<open>
  NumPy's \<^verbatim>\<open>float64 ** float\<close> for a finite exponent: a negative finite base with
  a non-integer exponent gives NaN, and nothing is raised.
\<close>

definition odd_integer :: "real \<Rightarrow> bool" where
  "odd_integer y \<longleftrightarrow> y = of_int \<lfloor>y\<rfloor> \<and> odd \<lfloor>y\<rfloor>"

definition np_power :: "npfloat \<Rightarrow> real \<Rightarrow> npfloat" where
  "np_power x y =
     (if y = 0 then Fin 1
      else if x = NaN then NaN
      else if is_inf x then
        (if 0 < y then signed_inf (negative x \<and> odd_integer y)
         else signed_zero (negative x \<and> odd_integer y))
      else if is_zero x then
        (if 0 < y then signed_zero (negative x \<and> odd_integer y)
         else signed_inf (negative x \<and> odd_integer y))
      else if 0 < the_real x then Fin (the_real x powr y)
      else if y = of_int \<lfloor>y\<rfloor> then
        (if 0 < y then Fin (the_real x ^ nat \<lfloor>y\<rfloor>) else Fin (1 / the_real x ^ nat (- \<lfloor>y\<rfloor>)))
      else NaN)"



section \<open>Two-dimensional arrays\<close>

text \<open>
  A NumPy array of two dimensions is a list of rows. Reading or writing outside the
  shape raises IndexError. The indices the loops produce are never negative, so element
  access takes natural numbers; the one index that comes straight from an argument
  (the terminal row) is an integer and wraps as NumPy's negative indices do.
\<close>

type_synonym ndarray = "npfloat list list"

definition np_full :: "nat \<Rightarrow> nat \<Rightarrow> npfloat \<Rightarrow> ndarray" where
  "np_full m n v = replicate m (replicate n v)"

definition getitem :: "ndarray \<Rightarrow> nat \<Rightarrow> nat \<Rightarrow> error + npfloat" where
  "getitem a i j =
     (if i < length a \<and> j < length (a ! i) then Inr (a ! i ! j) else Inl IndexError)"

definition setitem :: "ndarray \<Rightarrow> nat \<Rightarrow> nat \<Rightarrow> npfloat \<Rightarrow> error + ndarray" where
  "setitem a i j v =
     (if i < length a \<and> j < length (a ! i) then Inr (a[i := (a ! i)[j := v]])
      else Inl IndexError)"

definition setrow :: "ndarray \<Rightarrow> int \<Rightarrow> npfloat \<Rightarrow> error + ndarray" where
  "setrow a i v =
     (let n = int (length a); k = (if i < 0 then i + n else i)
      in if 0 \<le> k \<and> k < n
         then Inr (a[nat k := replicate (length (a ! nat k)) v])
         else Inl IndexError)"

section \<open>Loops\<close>

text \<open>A \<^verbatim>\<open>for\<close> loop over a list of values; an exception in the body ends it.\<close>

fun for_each :: "('a \<Rightarrow> 's \<Rightarrow> error + 's) \<Rightarrow> 'a list \<Rightarrow> 's \<Rightarrow> error + 's" where
  "for_each body [] s = Inr s"
| "for_each body (x # xs) s =
     (case body x s of Inl e \<Rightarrow> Inl e | Inr s' \<Rightarrow> for_each body xs s')"

section \<open>The program\<close>

subsection \<open>get_rate_at_node\<close>

definition get_rate_at_node ::
  "npfloat \<Rightarrow> npfloat \<Rightarrow> npfloat \<Rightarrow> int \<Rightarrow> int \<Rightarrow> error + npfloat" where
  "get_rate_at_node initial_rate up_move down_move time state =
     (if time < state then Inl ValueError
      else case py_pow up_move state of
        Inl e \<Rightarrow> Inl e
      | Inr a \<Rightarrow>
          (case py_pow down_move (time - state) of
             Inl e \<Rightarrow> Inl e
           | Inr b \<Rightarrow> Inr (fmul (fmul a b) initial_rate)))"

subsection \<open>build_rates_tree\<close>

text \<open>
  The state of the loops is the array together with the list of the cells for which
  \<open>get_rate_at_node\<close> has been called, in the order of the calls. The list is not
  in the source: it records what the loops do, for the statements about how often a
  cell is computed.
\<close>

record rates_state =
  r_tree :: ndarray
  r_calls :: "(nat \<times> nat) list"

definition rate_cell ::
  "npfloat \<Rightarrow> npfloat \<Rightarrow> npfloat \<Rightarrow> nat \<Rightarrow> nat \<Rightarrow> rates_state \<Rightarrow> error + rates_state" where
  "rate_cell initial_rate up_move down_move time state s =
     (case get_rate_at_node initial_rate up_move down_move (int time) (int state) of
        Inl e \<Rightarrow> Inl e
      | Inr v \<Rightarrow>
          (case setitem (r_tree s) time state v of
             Inl e \<Rightarrow> Inl e
           | Inr t \<Rightarrow> Inr \<lparr>r_tree = t, r_calls = r_calls s @ [(time, state)]\<rparr>))"

definition build_rates_run ::
  "npfloat \<Rightarrow> npfloat \<Rightarrow> npfloat \<Rightarrow> int \<Rightarrow> error + rates_state" where
  "build_rates_run initial_rate up_move down_move Time0 =
     (let Time = Time0 + 1 in
      if Time < 0 then Inl ValueError
      else
        let n = nat Time; tree = np_full n n NaN in
        case setitem tree 0 0 initial_rate of
          Inl e \<Rightarrow> Inl e
        | Inr tree \<Rightarrow>
            for_each
              (\<lambda>time. for_each (rate_cell initial_rate up_move down_move time)
                 [0..<time + 1])
              [0..<n]
              \<lparr>r_tree = tree, r_calls = []\<rparr>)"

definition build_rates_tree ::
  "npfloat \<Rightarrow> npfloat \<Rightarrow> npfloat \<Rightarrow> int \<Rightarrow> error + ndarray" where
  "build_rates_tree initial_rate up_move down_move Time =
     map_sum id r_tree (build_rates_run initial_rate up_move down_move Time)"

subsection \<open>build_prices_tree\<close>

text \<open>
  The state of the backward pass is the price array together with the list of the
  cells read so far (of the rate array and of the price array), in the order of the
  reads. The list is not in the source.
\<close>

record prices_state =
  p_tree :: ndarray
  p_reads :: "(nat \<times> nat) list"

definition price_cell ::
  "ndarray \<Rightarrow> nat \<Rightarrow> nat \<Rightarrow> prices_state \<Rightarrow> error + prices_state" where
  "price_cell rates_tree time step s =
     (case getitem rates_tree time step of
        Inl e \<Rightarrow> Inl e
      | Inr rate \<Rightarrow>
          let discount_factor = fdiv (Fin 1) (fadd (Fin 1) rate) in
          (case getitem (p_tree s) (time + 1) (step + 1) of
             Inl e \<Rightarrow> Inl e
           | Inr prior_up_price \<Rightarrow>
               (case getitem (p_tree s) (time + 1) step of
                  Inl e \<Rightarrow> Inl e
                | Inr prior_down_price \<Rightarrow>
                    let price =
                      fmul (fadd (fmul (Fin (1 / 2)) prior_up_price)
                                 (fmul (Fin (1 / 2)) prior_down_price))
                           discount_factor
                    in (case setitem (p_tree s) time step price of
                          Inl e \<Rightarrow> Inl e
                        | Inr t \<Rightarrow>
                            Inr \<lparr>p_tree = t,
                                 p_reads = p_reads s @
                                   [(time, step), (time + 1, step + 1), (time + 1, step)]\<rparr>))))"

definition build_prices_run ::
  "npfloat \<Rightarrow> npfloat \<Rightarrow> npfloat \<Rightarrow> int \<Rightarrow> error + prices_state" where
  "build_prices_run initial_rate up_move down_move Time =
     (if Time + 1 < 0 then Inl ValueError
      else
        let price_tree = np_full (nat (Time + 1)) (nat (Time + 1)) NaN in
        case setrow price_tree Time (Fin 100) of
          Inl e \<Rightarrow> Inl e
        | Inr price_tree \<Rightarrow>
            (case build_rates_tree initial_rate up_move down_move Time of
               Inl e \<Rightarrow> Inl e
             | Inr rates_tree \<Rightarrow>
                 for_each
                   (\<lambda>time. for_each (price_cell rates_tree time) (rev [0..<time + 1]))
                   (rev [0..<nat Time])
                   \<lparr>p_tree = price_tree, p_reads = []\<rparr>))"

definition build_prices_tree ::
  "npfloat \<Rightarrow> npfloat \<Rightarrow> npfloat \<Rightarrow> int \<Rightarrow> error + ndarray" where
  "build_prices_tree initial_rate up_move down_move Time =
     map_sum id p_tree (build_prices_run initial_rate up_move down_move Time)"

subsection \<open>get_spot_rate\<close>

definition get_spot_rate ::
  "npfloat \<Rightarrow> npfloat \<Rightarrow> npfloat \<Rightarrow> int \<Rightarrow> error + npfloat" where
  "get_spot_rate short_rate up_move down_move periods =
     (case build_prices_tree short_rate up_move down_move periods of
        Inl e \<Rightarrow> Inl e
      | Inr price_tree \<Rightarrow>
          (case getitem price_tree 0 0 of
             Inl e \<Rightarrow> Inl e
           | Inr bond_price \<Rightarrow>
               if periods = 0 then Inl ZeroDivisionError
               else Inr (fsub (np_power (fdiv (Fin 100) bond_price)
                                 (1 / real_of_int periods))
                              (Fin 1))))"

section \<open>Notions for the statements\<close>

text \<open>
  The definitions of this section are not in the source. \<open>square n a\<close> says that the
  array has the shape \<open>(n, n)\<close>; \<open>rates_ok r0 u d N\<close> says that \<open>get_rate_at_node\<close>
  raises nothing on the cells of the rows \<open>0, \<dots>, N\<close> of the triangle; \<open>rate_of\<close> is
  the value it returns where it returns one; \<open>all_cells n\<close> lists the cells of the first
  \<open>n\<close> rows of the triangle in the order of the loops of \<open>build_rates_tree\<close>;
  \<open>step_price\<close> is the expression of one backward step; \<open>row_reads x\<close> lists the reads
  of the backward pass in row \<open>x\<close>.
\<close>

definition square :: "nat \<Rightarrow> ndarray \<Rightarrow> bool" where
  "square n a \<longleftrightarrow> length a = n \<and> (\<forall>i<n. length (a ! i) = n)"

definition rates_ok :: "npfloat \<Rightarrow> npfloat \<Rightarrow> npfloat \<Rightarrow> nat \<Rightarrow> bool" where
  "rates_ok r0 u d N \<longleftrightarrow>
     (\<forall>i\<le>N. \<forall>j\<le>i. \<not> isl (get_rate_at_node r0 u d (int i) (int j)))"

definition rate_of :: "npfloat \<Rightarrow> npfloat \<Rightarrow> npfloat \<Rightarrow> nat \<Rightarrow> nat \<Rightarrow> npfloat" where
  "rate_of r0 u d i j =
     (case get_rate_at_node r0 u d (int i) (int j) of Inl e \<Rightarrow> NaN | Inr v \<Rightarrow> v)"

definition all_cells :: "nat \<Rightarrow> (nat \<times> nat) list" where
  "all_cells n = concat (map (\<lambda>i. map (Pair i) [0..<i + 1]) [0..<n])"

definition step_price :: "npfloat \<Rightarrow> npfloat \<Rightarrow> npfloat \<Rightarrow> npfloat" where
  "step_price rate up down =
     fmul (fadd (fmul (Fin (1 / 2)) up) (fmul (Fin (1 / 2)) down))
          (fdiv (Fin 1) (fadd (Fin 1) rate))"

definition row_reads :: "nat \<Rightarrow> (nat \<times> nat) list" where
  "row_reads x = concat (map (\<lambda>j. [(x, j), (x + 1, j + 1), (x + 1, j)]) (rev [0..<x + 1]))"

section \<open>Arrays and loops\<close>

lemma square_np_full: "square n (np_full n n v)"
  by (simp add: square_def np_full_def)

lemma np_full_nth: "i < m \<Longrightarrow> j < n \<Longrightarrow> np_full m n v ! i ! j = v"
  by (simp add: np_full_def)

lemma getitem_square: "square n a \<Longrightarrow> i < n \<Longrightarrow> j < n \<Longrightarrow> getitem a i j = Inr (a ! i ! j)"
  by (simp add: square_def getitem_def)

lemma setitem_square:
  "square n a \<Longrightarrow> i < n \<Longrightarrow> j < n \<Longrightarrow> setitem a i j v = Inr (a[i := (a ! i)[j := v]])"
  by (simp add: square_def setitem_def)

lemma square_update: "square n a \<Longrightarrow> square n (a[i := (a ! i)[j := v]])"
  by (cases "i < length a") (auto simp: square_def nth_list_update)

lemma nth_update2:
  "square n a \<Longrightarrow> i < n \<Longrightarrow> j < n \<Longrightarrow>
   a[i := (a ! i)[j := v]] ! k ! l = (if k = i \<and> l = j then v else a ! k ! l)"
  by (auto simp: square_def nth_list_update)

lemma for_each_inv_aux:
  assumes step: "\<And>ys x zs t. xs0 = ys @ x # zs \<Longrightarrow> P ys t \<Longrightarrow>
                   \<exists>t'. body x t = Inr t' \<and> P (ys @ [x]) t'"
  shows "xs0 = ys @ xs \<Longrightarrow> P ys s \<Longrightarrow> \<exists>t. for_each body xs s = Inr t \<and> P (ys @ xs) t"
proof (induction xs arbitrary: ys s)
  case Nil
  then show ?case by simp
next
  case (Cons x xs)
  from step [OF Cons.prems(1) Cons.prems(2)]
  obtain t' where t': "body x s = Inr t'" "P (ys @ [x]) t'" by blast
  from Cons.prems(1) have "xs0 = (ys @ [x]) @ xs" by simp
  from Cons.IH [OF this t'(2)] t'(1) show ?case by simp
qed

lemma for_each_inv:
  assumes "P [] s"
    and "\<And>ys x zs t. xs = ys @ x # zs \<Longrightarrow> P ys t \<Longrightarrow>
           \<exists>t'. body x t = Inr t' \<and> P (ys @ [x]) t'"
  shows "\<exists>t. for_each body xs s = Inr t \<and> P xs t"
  using for_each_inv_aux [of xs P body "[]" xs s] assms by simp

lemma for_each_Inr_body:
  "for_each body xs s = Inr t \<Longrightarrow> x \<in> set xs \<Longrightarrow> \<exists>s1 s2. body x s1 = Inr s2"
proof (induction xs arbitrary: s)
  case Nil
  then show ?case by simp
next
  case (Cons y ys)
  from Cons.prems(1) obtain s' where s': "body y s = Inr s'" "for_each body ys s' = Inr t"
    by (auto split: sum.splits)
  show ?case
  proof (cases "x = y")
    case True
    with s'(1) show ?thesis by blast
  next
    case False
    with Cons.prems(2) have "x \<in> set ys" by simp
    from Cons.IH [OF s'(2) this] show ?thesis .
  qed
qed

lemma get_rate_at_node_rate_of:
  "\<not> isl (get_rate_at_node r0 u d (int i) (int j)) \<Longrightarrow>
   get_rate_at_node r0 u d (int i) (int j) = Inr (rate_of r0 u d i j)"
  by (cases "get_rate_at_node r0 u d (int i) (int j)") (simp_all add: rate_of_def)

lemma rate_cell_Inr:
  "rate_cell r0 u d time state s = Inr t \<Longrightarrow>
   \<not> isl (get_rate_at_node r0 u d (int time) (int state))"
  by (auto simp: rate_cell_def split: sum.splits)

lemma rates_row:
  assumes sq: "square n (r_tree s0)" and x: "x < n"
    and ok: "\<forall>j\<le>x. \<not> isl (get_rate_at_node r0 u d (int x) (int j))"
  shows "\<exists>t. for_each (rate_cell r0 u d x) [0..<x + 1] s0 = Inr t \<and>
           square n (r_tree t) \<and>
           r_calls t = r_calls s0 @ map (Pair x) [0..<x + 1] \<and>
           (\<forall>i j. r_tree t ! i ! j =
              (if i = x \<and> j \<le> x then rate_of r0 u d x j else r_tree s0 ! i ! j))"
proof -
  define P where "P ys t \<longleftrightarrow> square n (r_tree t) \<and>
      r_calls t = r_calls s0 @ map (Pair x) ys \<and>
      (\<forall>i j. r_tree t ! i ! j =
         (if i = x \<and> j \<in> set ys then rate_of r0 u d x j else r_tree s0 ! i ! j))"
    for ys and t :: rates_state
  have init: "P [] s0" using sq by (simp add: P_def)
  have step: "\<exists>t'. rate_cell r0 u d x y t = Inr t' \<and> P (ys @ [y]) t'"
    if split: "[0..<x + 1] = ys @ y # zs" and inv: "P ys t" for ys y zs t
  proof -
    have "y \<in> set [0..<x + 1]" unfolding split by simp
    then have yx: "y \<le> x" by auto
    with x have yn: "y < n" by simp
    from inv have sqt: "square n (r_tree t)" by (simp add: P_def)
    from ok yx have call: "get_rate_at_node r0 u d (int x) (int y) = Inr (rate_of r0 u d x y)"
      by (simp add: get_rate_at_node_rate_of)
    let ?t' = "\<lparr>r_tree = (r_tree t)[x := (r_tree t ! x)[y := rate_of r0 u d x y]],
                r_calls = r_calls t @ [(x, y)]\<rparr>"
    have run: "rate_cell r0 u d x y t = Inr ?t'"
      by (simp add: rate_cell_def call setitem_square [OF sqt x yn])
    have "P (ys @ [y]) ?t'"
      using inv by (simp add: P_def square_update nth_update2 [OF sqt x yn])
    with run show ?thesis by blast
  qed
  have "\<exists>t. for_each (rate_cell r0 u d x) [0..<x + 1] s0 = Inr t \<and> P [0..<x + 1] t"
    by (rule for_each_inv [where P = P], rule init, rule step, assumption+)
  then obtain t where "for_each (rate_cell r0 u d x) [0..<x + 1] s0 = Inr t" "P [0..<x + 1] t"
    by blast
  then show ?thesis by (auto simp: P_def)
qed

lemma rates_loops:
  assumes sq: "square n (r_tree s0)"
    and ok: "\<forall>i<n. \<forall>j\<le>i. \<not> isl (get_rate_at_node r0 u d (int i) (int j))"
  shows "\<exists>t. for_each (\<lambda>time. for_each (rate_cell r0 u d time) [0..<time + 1]) [0..<n] s0
             = Inr t \<and>
           square n (r_tree t) \<and>
           r_calls t = r_calls s0 @ all_cells n \<and>
           (\<forall>i j. r_tree t ! i ! j =
              (if i < n \<and> j \<le> i then rate_of r0 u d i j else r_tree s0 ! i ! j))"
proof -
  define P where "P ys t \<longleftrightarrow> square n (r_tree t) \<and>
      r_calls t = r_calls s0 @ concat (map (\<lambda>i. map (Pair i) [0..<i + 1]) ys) \<and>
      (\<forall>i j. r_tree t ! i ! j =
         (if i \<in> set ys \<and> j \<le> i then rate_of r0 u d i j else r_tree s0 ! i ! j))"
    for ys and t :: rates_state
  let ?body = "\<lambda>time. for_each (rate_cell r0 u d time) [0..<time + 1]"
  have init: "P [] s0" using sq by (simp add: P_def)
  have step: "\<exists>t'. ?body x t = Inr t' \<and> P (ys @ [x]) t'"
    if split: "[0..<n] = ys @ x # zs" and inv: "P ys t" for ys x zs t
  proof -
    have "x \<in> set [0..<n]" unfolding split by simp
    then have xn: "x < n" by auto
    from inv have sqt: "square n (r_tree t)" by (simp add: P_def)
    from ok xn have okx: "\<forall>j\<le>x. \<not> isl (get_rate_at_node r0 u d (int x) (int j))" by simp
    from rates_row [OF sqt xn okx]
    obtain t' where t': "?body x t = Inr t'" "square n (r_tree t')"
      "r_calls t' = r_calls t @ map (Pair x) [0..<x + 1]"
      "\<forall>i j. r_tree t' ! i ! j =
         (if i = x \<and> j \<le> x then rate_of r0 u d x j else r_tree t ! i ! j)"
      by blast
    have "P (ys @ [x]) t'"
      using inv t'(2,3,4) by (auto simp: P_def)
    with t'(1) show ?thesis by blast
  qed
  have "\<exists>t. for_each ?body [0..<n] s0 = Inr t \<and> P [0..<n] t"
    by (rule for_each_inv [where P = P], rule init, rule step, assumption+)
  then obtain t where "for_each ?body [0..<n] s0 = Inr t" "P [0..<n] t"
    by blast
  then show ?thesis by (auto simp: P_def all_cells_def)
qed

lemma build_rates_run_ok:
  assumes T: "0 \<le> T" and ok: "rates_ok r0 u d (nat T)"
  shows "\<exists>t. build_rates_run r0 u d T = Inr t \<and>
           square (nat T + 1) (r_tree t) \<and>
           r_calls t = all_cells (nat T + 1) \<and>
           (\<forall>i j. i \<le> nat T \<longrightarrow> j \<le> nat T \<longrightarrow>
              r_tree t ! i ! j = (if j \<le> i then rate_of r0 u d i j else NaN))"
proof -
  define n where "n = nat T + 1"
  let ?a = "np_full n n NaN"
  let ?b = "?a[0 := (?a ! 0)[0 := r0]]"
  let ?st = "\<lparr>r_tree = ?b, r_calls = []\<rparr>"
  have n: "nat (T + 1) = n" "0 < n" using T by (simp_all add: n_def)
  have sqa: "square n ?a" by (rule square_np_full)
  have set0: "setitem ?a 0 0 r0 = Inr ?b" by (rule setitem_square [OF sqa n(2) n(2)])
  have sq0: "square n (r_tree ?st)" using square_update [OF sqa] by simp
  have cells0: "?b ! i ! j = (if i = 0 \<and> j = 0 then r0 else NaN)"
    if "i < n" "j < n" for i j
    using that by (simp add: nth_update2 [OF sqa n(2) n(2)] np_full_nth)
  have okn: "\<forall>i<n. \<forall>j\<le>i. \<not> isl (get_rate_at_node r0 u d (int i) (int j))"
    using ok by (simp add: rates_ok_def n_def)
  from rates_loops [OF sq0 okn]
  obtain t where t:
    "for_each (\<lambda>time. for_each (rate_cell r0 u d time) [0..<time + 1]) [0..<n] ?st = Inr t"
    "square n (r_tree t)"
    "r_calls t = r_calls ?st @ all_cells n"
    "\<forall>i j. r_tree t ! i ! j =
       (if i < n \<and> j \<le> i then rate_of r0 u d i j else r_tree ?st ! i ! j)"
    by blast
  have run: "build_rates_run r0 u d T = Inr t"
    using T t(1) set0 by (simp add: build_rates_run_def Let_def n(1) del: upt_Suc)
  have cells: "r_tree t ! i ! j = (if j \<le> i then rate_of r0 u d i j else NaN)"
    if "i \<le> nat T" "j \<le> nat T" for i j
  proof -
    from that have ij: "i < n" "j < n" by (simp_all add: n_def)
    show ?thesis using t(4) cells0 [OF ij] ij by auto
  qed
  from run t(2,3) cells show ?thesis by (auto simp: n_def)
qed

lemma build_rates_run_Inr:
  assumes run: "build_rates_run r0 u d T = Inr s"
  shows "0 \<le> T \<and> rates_ok r0 u d (nat T)"
proof -
  let ?n = "nat (T + 1)"
  let ?a = "np_full ?n ?n NaN"
  from run have T1: "0 \<le> T + 1"
    by (auto simp: build_rates_run_def Let_def split: if_splits)
  from run T1 obtain b where b: "setitem ?a 0 0 r0 = Inr b"
    and loops: "for_each (\<lambda>time. for_each (rate_cell r0 u d time) [0..<time + 1])
                  [0..<?n] \<lparr>r_tree = b, r_calls = []\<rparr> = Inr s"
    by (auto simp: build_rates_run_def Let_def split: if_splits sum.splits simp del: upt_Suc)
  from b have "0 < length ?a" by (auto simp: setitem_def split: if_splits)
  then have n: "0 < ?n" by (simp add: np_full_def)
  with T1 have T: "0 \<le> T" by simp
  have "\<not> isl (get_rate_at_node r0 u d (int i) (int j))" if "i \<le> nat T" "j \<le> i" for i j
  proof -
    from that(1) T have "i \<in> set [0..<?n]" by auto
    from for_each_Inr_body [OF loops this]
    obtain s1 s2 where inner: "for_each (rate_cell r0 u d i) [0..<i + 1] s1 = Inr s2"
      by blast
    from that(2) have "j \<in> set [0..<i + 1]" by auto
    from for_each_Inr_body [OF inner this]
    obtain s3 s4 where "rate_cell r0 u d i j s3 = Inr s4" by blast
    then show ?thesis by (rule rate_cell_Inr)
  qed
  with T show ?thesis by (simp add: rates_ok_def)
qed

lemma build_rates_run_cells:
  assumes run: "build_rates_run r0 u d T = Inr s"
  shows "0 \<le> T \<and> rates_ok r0 u d (nat T) \<and> square (nat T + 1) (r_tree s) \<and>
         r_calls s = all_cells (nat T + 1) \<and>
         (\<forall>i j. i \<le> nat T \<longrightarrow> j \<le> nat T \<longrightarrow>
            r_tree s ! i ! j = (if j \<le> i then rate_of r0 u d i j else NaN))"
proof -
  from build_rates_run_Inr [OF run] have T: "0 \<le> T" and ok: "rates_ok r0 u d (nat T)"
    by simp_all
  from build_rates_run_ok [OF T ok] run show ?thesis using T ok by auto
qed

lemma build_rates_tree_cells:
  assumes "build_rates_tree r0 u d T = Inr R"
  shows "0 \<le> T \<and> rates_ok r0 u d (nat T) \<and> square (nat T + 1) R \<and>
         (\<forall>i j. i \<le> nat T \<longrightarrow> j \<le> nat T \<longrightarrow>
            R ! i ! j = (if j \<le> i then rate_of r0 u d i j else NaN))"
proof -
  from assms obtain s where s: "build_rates_run r0 u d T = Inr s" "R = r_tree s"
    by (cases "build_rates_run r0 u d T") (auto simp: build_rates_tree_def)
  from build_rates_run_cells [OF s(1)] s(2) show ?thesis by simp
qed

lemma build_rates_tree_ok:
  assumes "0 \<le> T" "rates_ok r0 u d (nat T)"
  shows "\<exists>R. build_rates_tree r0 u d T = Inr R"
  using build_rates_run_ok [OF assms] by (auto simp: build_rates_tree_def)

lemma prices_row:
  assumes sq: "square n (p_tree s0)" and sqR: "square n R" and x: "x + 1 < n"
  shows "\<exists>t. for_each (price_cell R x) (rev [0..<x + 1]) s0 = Inr t \<and>
           square n (p_tree t) \<and>
           p_reads t = p_reads s0 @ row_reads x \<and>
           (\<forall>i j. p_tree t ! i ! j =
              (if i = x \<and> j \<le> x
               then step_price (R ! x ! j) (p_tree s0 ! (x + 1) ! (j + 1)) (p_tree s0 ! (x + 1) ! j)
               else p_tree s0 ! i ! j))"
proof -
  define P where "P ys t \<longleftrightarrow> square n (p_tree t) \<and>
      p_reads t = p_reads s0 @ concat (map (\<lambda>j. [(x, j), (x + 1, j + 1), (x + 1, j)]) ys) \<and>
      (\<forall>i j. p_tree t ! i ! j =
         (if i = x \<and> j \<in> set ys
          then step_price (R ! x ! j) (p_tree s0 ! (x + 1) ! (j + 1)) (p_tree s0 ! (x + 1) ! j)
          else p_tree s0 ! i ! j))"
    for ys and t :: prices_state
  have init: "P [] s0" using sq by (simp add: P_def)
  have step: "\<exists>t'. price_cell R x y t = Inr t' \<and> P (ys @ [y]) t'"
    if split: "rev [0..<x + 1] = ys @ y # zs" and inv: "P ys t" for ys y zs t
  proof -
    have "y \<in> set (rev [0..<x + 1])" unfolding split by simp
    then have yx: "y \<le> x" by auto
    with x have yn: "y < n" "y + 1 < n" "x < n" by simp_all
    from inv have sqt: "square n (p_tree t)" by (simp add: P_def)
    from inv have below: "p_tree t ! (x + 1) ! l = p_tree s0 ! (x + 1) ! l" for l
      by (simp add: P_def)
    let ?v = "step_price (R ! x ! y) (p_tree s0 ! (x + 1) ! (y + 1)) (p_tree s0 ! (x + 1) ! y)"
    let ?t' = "\<lparr>p_tree = (p_tree t)[x := (p_tree t ! x)[y := ?v]],
                p_reads = p_reads t @ [(x, y), (x + 1, y + 1), (x + 1, y)]\<rparr>"
    have g1: "getitem R x y = Inr (R ! x ! y)"
      by (rule getitem_square [OF sqR yn(3) yn(1)])
    have g2: "getitem (p_tree t) (x + 1) (y + 1) = Inr (p_tree s0 ! (x + 1) ! (y + 1))"
      using getitem_square [OF sqt x yn(2)] below by simp
    have g3: "getitem (p_tree t) (x + 1) y = Inr (p_tree s0 ! (x + 1) ! y)"
      using getitem_square [OF sqt x yn(1)] below by simp
    have run: "price_cell R x y t = Inr ?t'"
      by (simp only: price_cell_def g1 g2 g3 setitem_square [OF sqt yn(3) yn(1)]
            sum.case Let_def step_price_def)
    have "P (ys @ [y]) ?t'"
      using inv by (simp add: P_def square_update nth_update2 [OF sqt yn(3) yn(1)])
    with run show ?thesis by blast
  qed
  have "\<exists>t. for_each (price_cell R x) (rev [0..<x + 1]) s0 = Inr t \<and> P (rev [0..<x + 1]) t"
    by (rule for_each_inv [where P = P], rule init, rule step, assumption+)
  then obtain t where "for_each (price_cell R x) (rev [0..<x + 1]) s0 = Inr t"
    "P (rev [0..<x + 1]) t"
    by blast
  then show ?thesis by (auto simp: P_def row_reads_def)
qed

lemma rev_upt_split_greater:
  assumes "rev [0..<n] = ys @ x # zs" and "y \<in> set ys"
  shows "x < y"
proof -
  have "sorted_wrt (>) (rev [0..<n])" by (simp add: sorted_wrt_rev)
  with assms show ?thesis by (simp add: sorted_wrt_append)
qed

lemma prices_loops:
  assumes sq: "square (N + 1) (p_tree s0)" and sqR: "square (N + 1) R"
  shows "\<exists>t. for_each (\<lambda>time. for_each (price_cell R time) (rev [0..<time + 1]))
               (rev [0..<N]) s0 = Inr t \<and>
           square (N + 1) (p_tree t) \<and>
           p_reads t = p_reads s0 @ concat (map row_reads (rev [0..<N])) \<and>
           (\<forall>i j. p_tree t ! i ! j =
              (if i < N \<and> j \<le> i
               then step_price (R ! i ! j) (p_tree t ! (i + 1) ! (j + 1)) (p_tree t ! (i + 1) ! j)
               else p_tree s0 ! i ! j))"
proof -
  define P where "P ys t \<longleftrightarrow> square (N + 1) (p_tree t) \<and>
      p_reads t = p_reads s0 @ concat (map row_reads ys) \<and>
      (\<forall>i j. p_tree t ! i ! j =
         (if i \<in> set ys \<and> j \<le> i
          then step_price (R ! i ! j) (p_tree t ! (i + 1) ! (j + 1)) (p_tree t ! (i + 1) ! j)
          else p_tree s0 ! i ! j))"
    for ys and t :: prices_state
  let ?body = "\<lambda>time. for_each (price_cell R time) (rev [0..<time + 1])"
  have init: "P [] s0" using sq by (simp add: P_def)
  have step: "\<exists>t'. ?body x t = Inr t' \<and> P (ys @ [x]) t'"
    if split: "rev [0..<N] = ys @ x # zs" and inv: "P ys t" for ys x zs t
  proof -
    have "x \<in> set (rev [0..<N])" unfolding split by simp
    then have xn: "x + 1 < N + 1" by auto
    have above: "x < y" if "y \<in> set ys" for y
      using rev_upt_split_greater [OF split that] .
    from inv have sqt: "square (N + 1) (p_tree t)" by (simp add: P_def)
    from prices_row [OF sqt sqR xn]
    obtain t' where t': "?body x t = Inr t'" "square (N + 1) (p_tree t')"
      "p_reads t' = p_reads t @ row_reads x"
      "\<forall>i j. p_tree t' ! i ! j =
         (if i = x \<and> j \<le> x
          then step_price (R ! x ! j) (p_tree t ! (x + 1) ! (j + 1)) (p_tree t ! (x + 1) ! j)
          else p_tree t ! i ! j)"
      by blast
    have same: "p_tree t' ! i ! j = p_tree t ! i ! j" if "i \<noteq> x" for i j
      using t'(4) that by simp
    have cells: "p_tree t' ! i ! j =
         (if i \<in> set (ys @ [x]) \<and> j \<le> i
          then step_price (R ! i ! j) (p_tree t' ! (i + 1) ! (j + 1)) (p_tree t' ! (i + 1) ! j)
          else p_tree s0 ! i ! j)" for i j
    proof (cases "i = x")
      case True
      have "x \<notin> set ys" using above by auto
      with inv have "p_tree t ! x ! j = p_tree s0 ! x ! j" by (simp add: P_def)
      with True t'(4) same [of "x + 1"] show ?thesis by simp
    next
      case False
      show ?thesis
      proof (cases "i \<in> set ys")
        case True
        then have "i + 1 \<noteq> x" using above [of i] by simp
        with inv True False same [of i] same [of "i + 1"] show ?thesis
          by (simp add: P_def)
      next
        case no: False
        with inv False same [of i] show ?thesis by (simp add: P_def)
      qed
    qed
    have "P (ys @ [x]) t'"
      unfolding P_def using inv t'(2,3) cells by (simp add: P_def)
    with t'(1) show ?thesis by blast
  qed
  have "\<exists>t. for_each ?body (rev [0..<N]) s0 = Inr t \<and> P (rev [0..<N]) t"
    by (rule for_each_inv [where P = P], rule init, rule step, assumption+)
  then obtain t where "for_each ?body (rev [0..<N]) s0 = Inr t" "P (rev [0..<N]) t"
    by blast
  then show ?thesis by (auto simp: P_def)
qed

lemma setrow_square:
  assumes "square n a" "0 \<le> T" "nat T < n"
  shows "setrow a T v = Inr (a[nat T := replicate n v])"
  using assms by (auto simp: setrow_def square_def Let_def)

lemma square_row_update: "square n a \<Longrightarrow> square n (a[k := replicate n v])"
  by (cases "k < length a") (auto simp: square_def nth_list_update)

lemma nth_row_update:
  "square n a \<Longrightarrow> k < n \<Longrightarrow> i < n \<Longrightarrow> j < n \<Longrightarrow>
   a[k := replicate n v] ! i ! j = (if i = k then v else a ! i ! j)"
  by (auto simp: square_def nth_list_update)

lemma all_cells_Suc: "all_cells (Suc n) = all_cells n @ map (Pair n) [0..<n + 1]"
  by (simp add: all_cells_def)

lemma set_all_cells: "set (all_cells n) = {(i, j). j \<le> i \<and> i < n}"
  by (induction n) (auto simp: all_cells_Suc all_cells_def less_Suc_eq)

lemma distinct_all_cells: "distinct (all_cells n)"
proof (induction n)
  case 0
  then show ?case by (simp add: all_cells_def)
next
  case (Suc n)
  have "distinct (map (Pair n) [0..<n + 1])" by (simp add: distinct_map inj_on_def del: upt_Suc)
  moreover have "set (all_cells n) \<inter> set (map (Pair n) [0..<n + 1]) = {}"
    by (auto simp: set_all_cells)
  ultimately show ?case using Suc by (simp add: all_cells_Suc del: upt_Suc)
qed

lemma length_all_cells: "length (all_cells n) = n * (n + 1) div 2"
  by (induction n) (simp_all add: all_cells_Suc all_cells_def)

lemma row_reads_valid: "(i, j) \<in> set (row_reads x) \<Longrightarrow> j \<le> i \<and> i \<le> x + 1"
  by (auto simp: row_reads_def)

lemma all_reads_valid:
  "(i, j) \<in> set (concat (map row_reads (rev [0..<N]))) \<Longrightarrow> j \<le> i \<and> i \<le> N"
  by (auto dest!: row_reads_valid)

lemma build_prices_run_ok:
  assumes T: "0 \<le> T" and R: "build_rates_tree r0 u d T = Inr R"
  shows "\<exists>t. build_prices_run r0 u d T = Inr t \<and>
           square (nat T + 1) (p_tree t) \<and>
           p_reads t = concat (map row_reads (rev [0..<nat T])) \<and>
           (\<forall>i j. i \<le> nat T \<longrightarrow> j \<le> nat T \<longrightarrow>
              p_tree t ! i ! j =
                (if i = nat T then Fin 100
                 else if j \<le> i
                 then step_price (R ! i ! j)
                        (p_tree t ! (i + 1) ! (j + 1)) (p_tree t ! (i + 1) ! j)
                 else NaN))"
proof -
  define N where "N = nat T"
  let ?a = "np_full (N + 1) (N + 1) NaN"
  let ?b = "?a[N := replicate (N + 1) (Fin 100)]"
  let ?st = "\<lparr>p_tree = ?b, p_reads = []\<rparr>"
  have n: "nat (T + 1) = N + 1" "nat T = N" using T by (simp_all add: N_def)
  have sqa: "square (N + 1) ?a" by (rule square_np_full)
  have row: "setrow ?a T (Fin 100) = Inr ?b"
    using setrow_square [OF sqa T, of "Fin 100"] by (simp add: n)
  have sqb: "square (N + 1) (p_tree ?st)" using square_row_update [OF sqa] by simp
  have cells0: "?b ! i ! j = (if i = N then Fin 100 else NaN)"
    if "i < N + 1" "j < N + 1" for i j
    using that nth_row_update [OF sqa _ that, of N "Fin 100"] by (simp add: np_full_nth)
  from build_rates_tree_cells [OF R] have sqR: "square (N + 1) R" by (simp add: n)
  from prices_loops [OF sqb sqR]
  obtain t where t:
    "for_each (\<lambda>time. for_each (price_cell R time) (rev [0..<time + 1])) (rev [0..<N]) ?st
       = Inr t"
    "square (N + 1) (p_tree t)"
    "p_reads t = p_reads ?st @ concat (map row_reads (rev [0..<N]))"
    "\<forall>i j. p_tree t ! i ! j =
       (if i < N \<and> j \<le> i
        then step_price (R ! i ! j) (p_tree t ! (i + 1) ! (j + 1)) (p_tree t ! (i + 1) ! j)
        else p_tree ?st ! i ! j)"
    by blast
  have run: "build_prices_run r0 u d T = Inr t"
    using T t(1) row R by (simp add: build_prices_run_def Let_def n del: upt_Suc)
  have cells: "p_tree t ! i ! j =
      (if i = N then Fin 100
       else if j \<le> i
       then step_price (R ! i ! j) (p_tree t ! (i + 1) ! (j + 1)) (p_tree t ! (i + 1) ! j)
       else NaN)"
    if "i \<le> N" "j \<le> N" for i j
  proof -
    from that have ij: "i < N + 1" "j < N + 1" by simp_all
    show ?thesis using t(4) cells0 [OF ij] that by auto
  qed
  from run t(2,3) cells show ?thesis by (auto simp: n)
qed

lemma build_prices_run_Inr:
  assumes "build_prices_run r0 u d T = Inr s"
  shows "\<exists>R. build_rates_tree r0 u d T = Inr R"
  using assms
  by (cases "build_rates_tree r0 u d T")
     (auto simp: build_prices_run_def Let_def split: if_splits sum.splits)

lemma build_rates_run_negative:
  "T < 0 \<Longrightarrow> build_rates_run r0 u d T = Inl (if T + 1 < 0 then ValueError else IndexError)"
  by (auto simp: build_rates_run_def Let_def setitem_def np_full_def)

lemma build_prices_run_error:
  assumes "build_rates_tree r0 u d T = Inl e"
  shows "build_prices_run r0 u d T = Inl e"
proof (cases "0 \<le> T")
  case True
  let ?a = "np_full (nat (T + 1)) (nat (T + 1)) NaN"
  have "square (nat (T + 1)) ?a" by (rule square_np_full)
  from setrow_square [OF this True, of "Fin 100"] True
  have "setrow ?a T (Fin 100) = Inr (?a[nat T := replicate (nat (T + 1)) (Fin 100)])"
    by simp
  with True assms show ?thesis by (simp add: build_prices_run_def Let_def)
next
  case False
  then have neg: "T < 0" by simp
  from build_rates_run_negative [OF neg, of r0 u d] assms
  have e: "e = (if T + 1 < 0 then ValueError else IndexError)"
    by (simp add: build_rates_tree_def)
  show ?thesis
  proof (cases "T + 1 < 0")
    case True
    with e show ?thesis by (simp add: build_prices_run_def)
  next
    case no: False
    with neg have "T = - 1" by simp
    with e show ?thesis
      by (simp add: build_prices_run_def Let_def setrow_def np_full_def)
  qed
qed

section \<open>Numbers and examples\<close>

lemmas float_defs = fadd_def fmul_def fdiv_def is_inf_def is_zero_def signed_inf_def
  signed_zero_def



lemma py_pow_zero: "py_pow x 0 = Inr (Fin 1)"
  by (simp add: py_pow_def double_overflow_def)






lemma not_double_overflow_small: "\<bar>x\<bar> \<le> 2 ^ 1000 \<Longrightarrow> \<not> double_overflow x"
proof -
  assume x: "\<bar>x\<bar> \<le> 2 ^ 1000"
  have "(2::real) ^ 970 \<le> 2 ^ 1023" by (rule power_increasing) simp_all
  moreover have "(2::real) ^ 1024 = 2 * 2 ^ 1023" by simp
  ultimately have "(2::real) ^ 1023 \<le> 2 ^ 1024 - 2 ^ 970" by linarith
  moreover have "(2::real) ^ 1000 < 2 ^ 1023" by (rule power_strict_increasing) simp_all
  ultimately show ?thesis using x by (simp add: double_overflow_def)
qed

lemma py_pow_Fin_nat:
  assumes "\<not> double_overflow (real n)" "\<not> double_overflow (a ^ n)"
  shows "py_pow (Fin a) (int n) = Inr (if a = 0 \<and> 0 < n then Fin 0 else Fin (a ^ n))"
proof (cases "n = 0")
  case True
  then show ?thesis by (simp add: py_pow_zero)
next
  case False
  then have n: "0 < n" "int n \<noteq> 0" "0 < int n" by simp_all
  have conv: "real_of_int (int n) = real n" by simp
  show ?thesis
    unfolding py_pow_def conv Let_def
    using assms n by (simp add: is_inf_def is_zero_def signed_zero_def)
qed

lemma rates_ok_bounded:
  assumes u: "\<bar>u\<bar> \<le> 2" and d: "\<bar>d\<bar> \<le> 2" and N: "N \<le> 1000"
  shows "rates_ok r0 (Fin u) (Fin d) N"
proof -
  have small: "\<not> double_overflow (a ^ n)" if "\<bar>a\<bar> \<le> 2" "n \<le> 1000" for a :: real and n
  proof -
    have "\<bar>a ^ n\<bar> = \<bar>a\<bar> ^ n" by (simp add: power_abs)
    also have "\<dots> \<le> 2 ^ n" using that(1) by (intro power_mono) simp_all
    also have "\<dots> \<le> (2::real) ^ 1000" using that(2) by (intro power_increasing) simp_all
    finally show ?thesis by (rule not_double_overflow_small)
  qed
  have idx: "\<not> double_overflow (real n)" if "n \<le> 1000" for n
  proof -
    have "real n \<le> 1000" using that by simp
    also have "(1000::real) \<le> 2 ^ 10" by simp
    also have "(2::real) ^ 10 \<le> 2 ^ 1000" by (intro power_increasing) simp_all
    finally show ?thesis by (intro not_double_overflow_small) simp
  qed
  have "\<not> isl (get_rate_at_node r0 (Fin u) (Fin d) (int i) (int j))" if "i \<le> N" "j \<le> i" for i j
  proof -
    from that N have b: "j \<le> 1000" "i - j \<le> 1000" by simp_all
    have pu: "\<exists>a. py_pow (Fin u) (int j) = Inr a"
      using py_pow_Fin_nat [OF idx [OF b(1)] small [OF u b(1)]] by blast
    have diff: "int i - int j = int (i - j)" using that(2) by simp
    have pd: "\<exists>b. py_pow (Fin d) (int i - int j) = Inr b"
      unfolding diff using py_pow_Fin_nat [OF idx [OF b(2)] small [OF d b(2)]] by blast
    from pu obtain a where a: "py_pow (Fin u) (int j) = Inr a" by blast
    from pd obtain b where b': "py_pow (Fin d) (int i - int j) = Inr b" by blast
    have "\<not> int i < int j" using that(2) by simp
    then show ?thesis unfolding get_rate_at_node_def a b' by simp
  qed
  then show ?thesis by (simp add: rates_ok_def)
qed

lemma py_pow_overflow_example: "py_pow (Fin (2 ^ 600)) 2 = Inl OverflowError"
proof -
  have "(2::real) ^ 1024 - 2 ^ 970 \<le> 2 ^ 1024" by simp
  also have "(2::real) ^ 1024 \<le> 2 ^ 1200" by (rule power_increasing) simp_all
  also have "(2::real) ^ 1200 = (2 ^ 600) ^ 2" by (simp add: power_mult [symmetric])
  finally have big: "double_overflow ((2 ^ 600) ^ 2)" by (simp add: double_overflow_def)
  have small: "\<not> double_overflow (real_of_int 2)"
    using not_double_overflow_small [of 2] by simp
  have "(2::real) ^ 600 \<noteq> 0" by simp
  with big small show ?thesis
    by (simp add: py_pow_def Let_def is_inf_def is_zero_def)
qed

lemma build_prices_tree_run:
  "build_prices_tree r0 u d T = Inr P \<longleftrightarrow>
   (\<exists>s. build_prices_run r0 u d T = Inr s \<and> P = p_tree s)"
  by (cases "build_prices_run r0 u d T") (auto simp: build_prices_tree_def)

lemma build_prices_tree_Inr:
  assumes "0 \<le> T" "build_prices_tree r0 u d T = Inr P"
  shows "rates_ok r0 u d (nat T)"
proof -
  from assms(2) obtain s where "build_prices_run r0 u d T = Inr s"
    by (auto simp: build_prices_tree_run)
  from build_prices_run_Inr [OF this] obtain R where "build_rates_tree r0 u d T = Inr R"
    by blast
  from build_rates_tree_cells [OF this] show ?thesis by simp
qed

lemma all_cells_3: "all_cells 3 = [(0, 0), (1, 0), (1, 1), (2, 0), (2, 1), (2, 2)]"
  by (simp add: all_cells_def numeral_3_eq_3)


lemmas eval_defs = get_rate_at_node_def rate_cell_def build_rates_run_def
  build_rates_tree_def price_cell_def build_prices_run_def build_prices_tree_def
  np_full_def getitem_def setitem_def setrow_def py_pow_zero float_defs Let_def
  upt_conv_Cons numeral_2_eq_2

lemma py_pow_one: "py_pow (Fin 1) 1 = Inr (Fin 1)"
  using py_pow_Fin_nat [of 1 1] not_double_overflow_small [of 1] by simp

lemma prices_run_example:
  "build_prices_run (Fin (- 1)) (Fin 1) (Fin 1) 1
   = Inr \<lparr>p_tree = [[PInf, NaN], [Fin 100, Fin 100]], p_reads = [(0, 0), (1, 1), (1, 0)]\<rparr>"
  by (simp add: eval_defs py_pow_one)

lemma get_spot_rate_returns:
  assumes T: "1 \<le> T" and P: "build_prices_tree r0 u d T = Inr P"
  shows "\<exists>P0. getitem P 0 0 = Inr P0 \<and>
           get_spot_rate r0 u d T
             = Inr (fsub (np_power (fdiv (Fin 100) P0) (1 / real_of_int T)) (Fin 1))"
proof -
  from T have T0: "0 \<le> T" "T \<noteq> 0" by simp_all
  from P obtain s where s: "build_prices_run r0 u d T = Inr s" "P = p_tree s"
    by (auto simp: build_prices_tree_run)
  from build_prices_run_Inr [OF s(1)] obtain R where R: "build_rates_tree r0 u d T = Inr R"
    by blast
  from build_prices_run_ok [OF T0(1) R] s have sq: "square (nat T + 1) P" by auto
  have root: "getitem P 0 0 = Inr (P ! 0 ! 0)"
    by (rule getitem_square [OF sq]) simp_all
  with P T0(2) show ?thesis by (simp add: get_spot_rate_def)
qed

lemma rate_of_ones:
  assumes "j \<le> i" "i \<le> 1000"
  shows "get_rate_at_node (Fin 1) (Fin 1) (Fin 1) (int i) (int j) = Inr (Fin 1)"
proof -
  have small: "\<not> double_overflow (real n)" if "n \<le> 1000" for n
  proof -
    have "real n \<le> 1000" using that by simp
    also have "(1000::real) \<le> 2 ^ 10" by simp
    also have "(2::real) ^ 10 \<le> 2 ^ 1000" by (intro power_increasing) simp_all
    finally show ?thesis by (intro not_double_overflow_small) simp
  qed
  have one: "\<not> double_overflow (1 ^ n)" for n
    using not_double_overflow_small [of 1] by simp
  from assms have b: "j \<le> 1000" "i - j \<le> 1000" by simp_all
  have diff: "int i - int j = int (i - j)" using assms(1) by simp
  have pu: "py_pow (Fin 1) (int j) = Inr (Fin 1)"
    using py_pow_Fin_nat [OF small [OF b(1)] one [of j]] by simp
  have pd: "py_pow (Fin 1) (int i - int j) = Inr (Fin 1)"
    unfolding diff using py_pow_Fin_nat [OF small [OF b(2)] one [of "i - j"]] by simp
  have "\<not> int i < int j" using assms(1) by simp
  then show ?thesis unfolding get_rate_at_node_def pu pd by (simp add: float_defs)
qed

lemma step_price_one: "step_price (Fin 1) (Fin a) (Fin a) = Fin (a / 2)" if "a \<noteq> 0"
  using that by (simp add: step_price_def float_defs)

lemma prices_root_example:
  "\<exists>P. build_prices_tree (Fin 1) (Fin 1) (Fin 1) 2 = Inr P \<and> getitem P 0 0 = Inr (Fin 25)"
proof -
  have T: "(0::int) \<le> 2" by simp
  have ok: "rates_ok (Fin 1) (Fin 1) (Fin 1) (nat 2)" by (rule rates_ok_bounded) simp_all
  from build_rates_tree_ok [OF T ok]
  obtain R where R: "build_rates_tree (Fin 1) (Fin 1) (Fin 1) 2 = Inr R" by blast
  from build_rates_tree_cells [OF R]
  have cellsR: "\<forall>i j. i \<le> nat 2 \<longrightarrow> j \<le> nat 2 \<longrightarrow>
      R ! i ! j = (if j \<le> i then rate_of (Fin 1) (Fin 1) (Fin 1) i j else NaN)"
    by simp
  have rate: "R ! i ! j = Fin 1" if "j \<le> i" "i \<le> 2" for i j
  proof -
    from that have "i \<le> 1000" by simp
    from rate_of_ones [OF that(1) this] have "rate_of (Fin 1) (Fin 1) (Fin 1) i j = Fin 1"
      by (simp add: rate_of_def)
    with cellsR that show ?thesis by simp
  qed
  from build_prices_run_ok [OF T R]
  obtain s where s: "build_prices_run (Fin 1) (Fin 1) (Fin 1) 2 = Inr s"
    "square (nat 2 + 1) (p_tree s)"
    "\<forall>i j. i \<le> nat 2 \<longrightarrow> j \<le> nat 2 \<longrightarrow>
       p_tree s ! i ! j =
         (if i = nat 2 then Fin 100
          else if j \<le> i
          then step_price (R ! i ! j)
                 (p_tree s ! (i + 1) ! (j + 1)) (p_tree s ! (i + 1) ! j)
          else NaN)"
    by blast
  from s(3) have last: "p_tree s ! 2 ! 0 = Fin 100" "p_tree s ! 2 ! 1 = Fin 100"
    "p_tree s ! 2 ! 2 = Fin 100"
    by simp_all
  from s(3) have "p_tree s ! 1 ! 0 = step_price (R ! 1 ! 0) (p_tree s ! 2 ! 1) (p_tree s ! 2 ! 0)"
    by (simp add: numeral_2_eq_2)
  then have p10: "p_tree s ! 1 ! 0 = Fin 50"
    using rate [of 0 1] last step_price_one [of 100] by simp
  from s(3) have "p_tree s ! 1 ! 1 = step_price (R ! 1 ! 1) (p_tree s ! 2 ! 2) (p_tree s ! 2 ! 1)"
    by (simp add: numeral_2_eq_2)
  then have p11: "p_tree s ! 1 ! 1 = Fin 50"
    using rate [of 1 1] last step_price_one [of 100] by simp
  from s(3) have "p_tree s ! 0 ! 0 = step_price (R ! 0 ! 0) (p_tree s ! 1 ! 1) (p_tree s ! 1 ! 0)"
    by simp
  then have p00: "p_tree s ! 0 ! 0 = Fin 25"
    using rate [of 0 0] p10 p11 step_price_one [of 50] by simp
  have "getitem (p_tree s) 0 0 = Inr (p_tree s ! 0 ! 0)"
    by (rule getitem_square [OF s(2)]) simp_all
  with p00 s(1) show ?thesis by (simp add: build_prices_tree_def)
qed

lemma np_power_sqrt_example: "np_power (Fin 4) (1 / 2) = Fin 2"
proof -
  have "(4::real) powr (1 / 2) = sqrt 4" by (simp add: powr_half_sqrt)
  also have "sqrt 4 = sqrt (2 ^ 2)" by simp
  also have "\<dots> = 2" by (simp only: real_sqrt_abs)
  finally show ?thesis by (simp add: np_power_def is_inf_def is_zero_def)
qed

lemma np_power_one_example: "np_power (Fin (- 4)) (1 / real_of_int 1) = Fin (- 4)"
  by (simp add: np_power_def is_inf_def is_zero_def)

lemma negative_price_tree:
  "build_prices_tree (Fin (- 5)) (Fin 1) (Fin 1) 1 = Inr [[Fin (- 25), NaN], [Fin 100, Fin 100]]"
  by (simp add: eval_defs py_pow_one)

lemma negative_price_spot: "get_spot_rate (Fin (- 5)) (Fin 1) (Fin 1) 1 = Inr (Fin (- 5))"
proof -
  have "fdiv (Fin 100) (Fin (- 25)) = Fin (- 4)" by (simp add: float_defs)
  moreover have "fsub (Fin (- 4)) (Fin 1) = Fin (- 5)" by (simp add: fsub_def float_defs)
  ultimately show ?thesis
    unfolding get_spot_rate_def negative_price_tree
    using np_power_one_example by (simp add: getitem_def)
qed

lemma rates_ok_0: "rates_ok r0 u d 0"
  by (simp add: rates_ok_def get_rate_at_node_def py_pow_zero)




lemma py_pow_one_2: "py_pow (Fin 1) 2 = Inr (Fin 1)"
  using py_pow_Fin_nat [of 2 1] not_double_overflow_small [of 1]
    not_double_overflow_small [of 2] by simp

lemma rates_overflow_row:
  assumes "py_pow u 1 = Inr a" "py_pow u 2 = Inl OverflowError"
  shows "build_rates_tree (Fin 1) u (Fin 1) 2 = Inl OverflowError"
  using assms
  by (simp add: get_rate_at_node_def rate_cell_def build_rates_run_def
      build_rates_tree_def np_full_def setitem_def py_pow_zero py_pow_one py_pow_one_2
      Let_def upt_conv_Cons numeral_2_eq_2 numeral_3_eq_3)

lemma py_pow_first:
  assumes "\<bar>a\<bar> \<le> 2 ^ 1000" "a \<noteq> 0"
  shows "py_pow (Fin a) 1 = Inr (Fin a)"
proof -
  from assms(1) have "\<not> double_overflow (a ^ 1)"
    using not_double_overflow_small [of a] by simp
  moreover have "\<not> double_overflow (real 1)"
    using not_double_overflow_small [of 1] by simp
  ultimately show ?thesis using py_pow_Fin_nat [of 1 a] assms(2) by simp
qed

lemma py_pow_big_one: "py_pow (Fin (2 ^ 600)) 1 = Inr (Fin (2 ^ 600))"
proof -
  have "(2::real) ^ 600 \<le> 2 ^ 1000" by (rule power_increasing) simp_all
  then have "\<bar>(2::real) ^ 600\<bar> \<le> 2 ^ 1000" by simp
  moreover have "(2::real) ^ 600 \<noteq> 0" by simp
  ultimately show ?thesis by (rule py_pow_first)
qed

section \<open>The claims\<close>

subsection \<open>The price lattice\<close>



subsection \<open>The rate lattice\<close>




subsection \<open>The spot rate\<close>

text \<open>
  Claim C3, as amended. For every horizon \<open>T \<ge> 1\<close> and all parameters, whenever
  \<open>build_prices_tree\<close> returns an array \<open>P\<close>, \<open>get_spot_rate\<close> raises nothing and
  returns \<open>(100 / P0) ** (1 / T) - 1\<close>, where \<open>P0\<close> is the cell \<open>(0, 0)\<close> of \<open>P\<close>. The array
  is returned when \<open>get_rate_at_node\<close> raises nothing on the cells of the triangle.
\<close>

theorem spot_rate_formula:
  assumes "1 \<le> T"
  shows "(\<forall>P. build_prices_tree r0 u d T = Inr P \<longrightarrow>
            (\<exists>P0. getitem P 0 0 = Inr P0 \<and>
               get_spot_rate r0 u d T
                 = Inr (fsub (np_power (fdiv (Fin 100) P0) (1 / real_of_int T)) (Fin 1)))) \<and>
         (rates_ok r0 u d (nat T) \<longrightarrow> (\<exists>P. build_prices_tree r0 u d T = Inr P))"
proof (intro conjI allI impI)
  fix P assume "build_prices_tree r0 u d T = Inr P"
  from get_spot_rate_returns [OF assms this]
  show "\<exists>P0. getitem P 0 0 = Inr P0 \<and>
      get_spot_rate r0 u d T
        = Inr (fsub (np_power (fdiv (Fin 100) P0) (1 / real_of_int T)) (Fin 1))" .
next
  assume ok: "rates_ok r0 u d (nat T)"
  from assms have T: "0 \<le> T" by simp
  from build_rates_tree_ok [OF T ok] obtain R where "build_rates_tree r0 u d T = Inr R"
    by blast
  from build_prices_run_ok [OF T this]
  show "\<exists>P. build_prices_tree r0 u d T = Inr P" by (auto simp: build_prices_tree_def)
qed

theorem spot_rate_formula_witness:
  "(1::int) \<le> 2 \<and> get_spot_rate (Fin 1) (Fin 1) (Fin 1) 2 = Inr (Fin 1)"
proof -
  have h: "(1::int) \<le> 2" by simp
  from prices_root_example
  obtain P where P: "build_prices_tree (Fin 1) (Fin 1) (Fin 1) 2 = Inr P"
    "getitem P 0 0 = Inr (Fin 25)"
    by blast
  from spot_rate_formula [OF h, of "Fin 1" "Fin 1" "Fin 1"] P(1)
  obtain P0 where P0: "getitem P 0 0 = Inr P0"
    "get_spot_rate (Fin 1) (Fin 1) (Fin 1) 2
       = Inr (fsub (np_power (fdiv (Fin 100) P0) (1 / real_of_int 2)) (Fin 1))"
    by blast
  from P(2) P0(1) have "P0 = Fin 25" by simp
  moreover have "fdiv (Fin 100) (Fin 25) = Fin 4" by (simp add: float_defs)
  moreover have "fsub (Fin 2) (Fin 1) = Fin 1" by (simp add: fsub_def float_defs)
  ultimately have "get_spot_rate (Fin 1) (Fin 1) (Fin 1) 2 = Inr (Fin 1)"
    using P0(2) np_power_sqrt_example by simp
  with h show ?thesis by blast
qed

text \<open>
  The claim as it stands has \<open>get_spot_rate\<close> return a value for every horizon
  \<open>T \<ge> 1\<close> and all parameters. With \<open>r0 = 1\<close>, \<open>u = 2 ^ 600\<close>, \<open>d = 1\<close> and \<open>T = 2\<close> the
  rate of the cell \<open>(2, 2)\<close> overflows, and \<open>get_spot_rate\<close> raises OverflowError.
\<close>

theorem spot_rate_overflow_counterexample:
  "get_spot_rate (Fin 1) (Fin (2 ^ 600)) (Fin 1) 2 = Inl OverflowError"
proof -
  from rates_overflow_row [OF py_pow_big_one py_pow_overflow_example]
  have "build_rates_tree (Fin 1) (Fin (2 ^ 600)) (Fin 1) 2 = Inl OverflowError" .
  from build_prices_run_error [OF this]
  have "build_prices_tree (Fin 1) (Fin (2 ^ 600)) (Fin 1) 2 = Inl OverflowError"
    by (simp only: build_prices_tree_def map_sum.simps id_apply)
  then show ?thesis by (simp only: get_spot_rate_def sum.case)
qed

subsection \<open>The cells the rate builder computes\<close>

text \<open>
  Claim C4. For every horizon \<open>T \<ge> 0\<close>, a run of \<open>build_rates_tree\<close> that returns
  has called \<open>get_rate_at_node\<close> for exactly the cells \<open>(i, j)\<close> with \<open>j \<le> i \<le> T\<close>, for
  each of them once, which makes \<open>(T + 1) (T + 2) / 2\<close> calls, and each of these cells
  holds the value of its call in the array returned. It returns exactly when
  \<open>get_rate_at_node\<close> raises nothing on these cells. (Before the loops the source also
  stores \<open>initial_rate\<close> in the cell \<open>(0, 0)\<close>; that store computes nothing, and the
  loops overwrite it.)
\<close>

theorem rates_tree_cells_once:
  assumes "0 \<le> T"
  shows "(rates_ok r0 u d (nat T) \<longrightarrow>
          (\<exists>s. build_rates_run r0 u d T = Inr s \<and>
             build_rates_tree r0 u d T = Inr (r_tree s) \<and>
             set (r_calls s) = {(i, j). j \<le> i \<and> i \<le> nat T} \<and>
             distinct (r_calls s) \<and>
             length (r_calls s) = (nat T + 1) * (nat T + 2) div 2 \<and>
             (\<forall>(i, j) \<in> set (r_calls s).
                getitem (r_tree s) i j = get_rate_at_node r0 u d (int i) (int j)))) \<and>
         ((\<exists>s. build_rates_run r0 u d T = Inr s) \<longrightarrow> rates_ok r0 u d (nat T))"
proof (intro conjI impI)
  {
    assume "\<exists>s. build_rates_run r0 u d T = Inr s"
    then show "rates_ok r0 u d (nat T)" using build_rates_run_Inr by blast
  }
  assume ok: "rates_ok r0 u d (nat T)"
  from build_rates_run_ok [OF assms ok]
  obtain s where s: "build_rates_run r0 u d T = Inr s" "square (nat T + 1) (r_tree s)"
    "r_calls s = all_cells (nat T + 1)"
    "\<forall>i j. i \<le> nat T \<longrightarrow> j \<le> nat T \<longrightarrow>
       r_tree s ! i ! j = (if j \<le> i then rate_of r0 u d i j else NaN)"
    by blast
  have tree: "build_rates_tree r0 u d T = Inr (r_tree s)"
    using s(1) by (simp add: build_rates_tree_def)
  have cells: "set (r_calls s) = {(i, j). j \<le> i \<and> i \<le> nat T}"
    unfolding s(3) set_all_cells by auto
  have once: "distinct (r_calls s)" unfolding s(3) by (rule distinct_all_cells)
  have count: "length (r_calls s) = (nat T + 1) * (nat T + 2) div 2"
    unfolding s(3) length_all_cells by simp
  have held: "getitem (r_tree s) i j = get_rate_at_node r0 u d (int i) (int j)"
    if "(i, j) \<in> set (r_calls s)" for i j
  proof -
    from that cells have ij: "j \<le> i" "i \<le> nat T" by auto
    then have lt: "i < nat T + 1" "j < nat T + 1" by simp_all
    from ok ij have "\<not> isl (get_rate_at_node r0 u d (int i) (int j))"
      by (simp add: rates_ok_def)
    from getitem_square [OF s(2) lt] s(4) ij get_rate_at_node_rate_of [OF this]
    show ?thesis by simp
  qed
  from s(1) tree cells once count held
  show "\<exists>s. build_rates_run r0 u d T = Inr s \<and>
           build_rates_tree r0 u d T = Inr (r_tree s) \<and>
           set (r_calls s) = {(i, j). j \<le> i \<and> i \<le> nat T} \<and>
           distinct (r_calls s) \<and>
           length (r_calls s) = (nat T + 1) * (nat T + 2) div 2 \<and>
           (\<forall>(i, j) \<in> set (r_calls s).
              getitem (r_tree s) i j = get_rate_at_node r0 u d (int i) (int j))"
    by blast
qed

theorem rates_tree_cells_once_witness:
  "(0::int) \<le> 2 \<and> rates_ok (Fin 1) (Fin 2) (Fin (3 / 2)) (nat 2) \<and>
   (\<exists>s. build_rates_run (Fin 1) (Fin 2) (Fin (3 / 2)) 2 = Inr s \<and>
        set (r_calls s) = set [(0, 0), (1, 0), (1, 1), (2, 0), (2, 1), (2, 2)] \<and>
        distinct (r_calls s) \<and> length (r_calls s) = 6)"
proof -
  have h: "(0::int) \<le> 2" by simp
  have ok: "rates_ok (Fin 1) (Fin 2) (Fin (3 / 2)) (nat 2)"
    by (rule rates_ok_bounded) simp_all
  from rates_tree_cells_once [OF h, of "Fin 1" "Fin 2" "Fin (3 / 2)"] ok
  obtain s where s: "build_rates_run (Fin 1) (Fin 2) (Fin (3 / 2)) 2 = Inr s"
    "set (r_calls s) = {(i, j). j \<le> i \<and> i \<le> nat 2}"
    "distinct (r_calls s)" "length (r_calls s) = (nat 2 + 1) * (nat 2 + 2) div 2"
    by blast
  have "{(i, j). j \<le> i \<and> i \<le> nat 2} = set (all_cells 3)"
    by (auto simp: set_all_cells)
  with s(2) have "set (r_calls s) = set [(0, 0), (1, 0), (1, 1), (2, 0), (2, 1), (2, 2)]"
    by (simp only: all_cells_3)
  moreover from s(4) have "length (r_calls s) = 6" by simp
  ultimately show ?thesis using h ok s(1,3) by blast
qed

subsection \<open>The errors of the spot rate\<close>

text \<open>
  Claim C5, as amended. \<open>get_spot_rate\<close> raises ZeroDivisionError when the horizon is
  0, for all parameters, and returns no result then. A price at the root that is not
  positive raises nothing: for every horizon \<open>T \<ge> 1\<close>, whenever \<open>build_prices_tree\<close>
  returns an array, \<open>get_spot_rate\<close> returns a float.
\<close>

theorem spot_rate_errors:
  "get_spot_rate r0 u d 0 = Inl ZeroDivisionError \<and>
   (1 \<le> T \<longrightarrow>
      (\<forall>P. build_prices_tree r0 u d T = Inr P \<longrightarrow> (\<exists>v. get_spot_rate r0 u d T = Inr v)))"
proof (intro conjI allI impI)
  have T: "(0::int) \<le> 0" by simp
  have ok: "rates_ok r0 u d (nat 0)" using rates_ok_0 by simp
  from build_rates_tree_ok [OF T ok] obtain R where R: "build_rates_tree r0 u d 0 = Inr R"
    by blast
  from build_prices_run_ok [OF T R]
  obtain s where s: "build_prices_run r0 u d 0 = Inr s" "square (nat 0 + 1) (p_tree s)"
    by blast
  have "getitem (p_tree s) 0 0 = Inr (p_tree s ! 0 ! 0)"
    by (rule getitem_square [OF s(2)]) simp_all
  with s(1) show "get_spot_rate r0 u d 0 = Inl ZeroDivisionError"
    by (simp add: get_spot_rate_def build_prices_tree_def)
next
  fix P assume "1 \<le> T" "build_prices_tree r0 u d T = Inr P"
  from get_spot_rate_returns [OF this] show "\<exists>v. get_spot_rate r0 u d T = Inr v" by blast
qed

theorem spot_rate_errors_witness:
  "get_spot_rate (Fin (- 5)) (Fin 1) (Fin 1) 0 = Inl ZeroDivisionError \<and> (1::int) \<le> 1 \<and>
   build_prices_tree (Fin (- 5)) (Fin 1) (Fin 1) 1 = Inr [[Fin (- 25), NaN], [Fin 100, Fin 100]] \<and>
   (\<exists>v. get_spot_rate (Fin (- 5)) (Fin 1) (Fin 1) 1 = Inr v)"
  using spot_rate_errors [of "Fin (- 5)" "Fin 1" "Fin 1" 1] negative_price_tree by simp

text \<open>
  The claim as it stands asks for an error whenever the price at the root is not
  positive. With the initial rate \<open>-5\<close>, both moves 1 and horizon 1 the price at the root
  is \<open>-25\<close>, and \<open>get_spot_rate\<close> returns \<open>-5\<close>.
\<close>

theorem spot_rate_negative_price_counterexample:
  "build_prices_tree (Fin (- 5)) (Fin 1) (Fin 1) 1 = Inr [[Fin (- 25), NaN], [Fin 100, Fin 100]] \<and>
   get_spot_rate (Fin (- 5)) (Fin 1) (Fin 1) 1 = Inr (Fin (- 5))"
  using negative_price_tree negative_price_spot by (rule conjI)

subsection \<open>The errors of the price builder\<close>

text \<open>
  Claim C6, as amended. \<open>build_prices_tree\<close> raises no error of its own. For every
  horizon \<open>T \<ge> 0\<close> and all parameters, those that give a rate with \<open>1 + rate \<le> 0\<close> among
  them: whenever \<open>build_rates_tree\<close> returns the rate array, \<open>build_prices_tree\<close> returns
  the price array, and every cell \<open>(i, j)\<close> its backward pass has read has
  \<open>j \<le> i \<le> T\<close>; and whenever \<open>build_rates_tree\<close> raises an error,
  \<open>build_prices_tree\<close> raises that error.
\<close>

theorem prices_tree_own_errors:
  assumes "0 \<le> T"
  shows "(\<forall>R. build_rates_tree r0 u d T = Inr R \<longrightarrow>
            (\<exists>s. build_prices_run r0 u d T = Inr s \<and>
                 build_prices_tree r0 u d T = Inr (p_tree s) \<and>
                 (\<forall>(i, j) \<in> set (p_reads s). j \<le> i \<and> i \<le> nat T))) \<and>
         (\<forall>e. build_rates_tree r0 u d T = Inl e \<longrightarrow> build_prices_tree r0 u d T = Inl e)"
proof (intro conjI allI impI)
  fix R assume R: "build_rates_tree r0 u d T = Inr R"
  from build_prices_run_ok [OF assms R]
  obtain s where s: "build_prices_run r0 u d T = Inr s"
    "p_reads s = concat (map row_reads (rev [0..<nat T]))"
    by blast
  have "build_prices_tree r0 u d T = Inr (p_tree s)"
    using s(1) by (simp add: build_prices_tree_def)
  moreover have "\<forall>(i, j) \<in> set (p_reads s). j \<le> i \<and> i \<le> nat T"
    unfolding s(2) using all_reads_valid by blast
  ultimately show "\<exists>s. build_prices_run r0 u d T = Inr s \<and>
      build_prices_tree r0 u d T = Inr (p_tree s) \<and>
      (\<forall>(i, j) \<in> set (p_reads s). j \<le> i \<and> i \<le> nat T)"
    using s(1) by blast
next
  fix e assume "build_rates_tree r0 u d T = Inl e"
  from build_prices_run_error [OF this]
  show "build_prices_tree r0 u d T = Inl e" by (simp add: build_prices_tree_def)
qed

theorem prices_tree_own_errors_witness:
  "(0::int) \<le> 1 \<and>
   (\<exists>R. build_rates_tree (Fin (- 1)) (Fin 1) (Fin 1) 1 = Inr R) \<and>
   (\<exists>s. build_prices_run (Fin (- 1)) (Fin 1) (Fin 1) 1 = Inr s \<and>
        p_tree s = [[PInf, NaN], [Fin 100, Fin 100]] \<and>
        p_reads s = [(0, 0), (1, 1), (1, 0)])"
proof -
  have h: "(0::int) \<le> 1" by simp
  have "rates_ok (Fin (- 1)) (Fin 1) (Fin 1) (nat 1)" by (rule rates_ok_bounded) simp_all
  from build_rates_tree_ok [OF h this]
  obtain R where R: "build_rates_tree (Fin (- 1)) (Fin 1) (Fin 1) 1 = Inr R" by blast
  from prices_tree_own_errors [OF h, of "Fin (- 1)" "Fin 1" "Fin 1"] R
  obtain s where s: "build_prices_run (Fin (- 1)) (Fin 1) (Fin 1) 1 = Inr s" by blast
  with prices_run_example have "p_tree s = [[PInf, NaN], [Fin 100, Fin 100]]"
    "p_reads s = [(0, 0), (1, 1), (1, 0)]"
    by auto
  with h R s show ?thesis by blast
qed

text \<open>
  The claim as it stands asks for an error where \<open>1 + rate\<close> is not positive. With the
  initial rate \<open>-3\<close>, both moves 1 and horizon 1 the rate at the root is \<open>-3\<close>, and the
  array returned holds the price \<open>-50\<close> at the root.
\<close>

theorem prices_tree_negative_discount_counterexample:
  "get_rate_at_node (Fin (- 3)) (Fin 1) (Fin 1) 0 0 = Inr (Fin (- 3)) \<and>
   build_prices_tree (Fin (- 3)) (Fin 1) (Fin 1) 1
     = Inr [[Fin (- 50), NaN], [Fin 100, Fin 100]]"
  by (simp add: eval_defs py_pow_one)

subsection \<open>The errors of the node rate\<close>




subsection \<open>The cells outside the triangle\<close>

text \<open>
  Claim C8. For every horizon \<open>T \<ge> 0\<close> the arrays \<open>build_rates_tree\<close> and
  \<open>build_prices_tree\<close> return have the shape \<open>(T + 1, T + 1)\<close>, every cell \<open>(i, j)\<close>
  with \<open>i < j \<le> T\<close> holds NaN in both, and the backward pass of \<open>build_prices_tree\<close>
  reads no cell with \<open>j > i\<close>. The arrays are returned exactly when
  \<open>get_rate_at_node\<close> raises nothing on the cells of the triangle.
\<close>

theorem invalid_cells_nan:
  assumes "0 \<le> T"
  shows "(rates_ok r0 u d (nat T) \<longrightarrow>
          (\<exists>R s. build_rates_tree r0 u d T = Inr R \<and>
             build_prices_run r0 u d T = Inr s \<and>
             build_prices_tree r0 u d T = Inr (p_tree s) \<and>
             square (nat T + 1) R \<and> square (nat T + 1) (p_tree s) \<and>
             (\<forall>i j. i < j \<longrightarrow> j \<le> nat T \<longrightarrow>
                getitem R i j = Inr NaN \<and> getitem (p_tree s) i j = Inr NaN) \<and>
             (\<forall>(i, j) \<in> set (p_reads s). j \<le> i))) \<and>
         ((\<exists>R. build_rates_tree r0 u d T = Inr R) \<or> (\<exists>P. build_prices_tree r0 u d T = Inr P)
            \<longrightarrow> rates_ok r0 u d (nat T))"
proof (intro conjI impI)
  {
    assume "(\<exists>R. build_rates_tree r0 u d T = Inr R) \<or> (\<exists>P. build_prices_tree r0 u d T = Inr P)"
    then show "rates_ok r0 u d (nat T)"
      using build_prices_tree_Inr [OF assms] build_rates_tree_cells by blast
  }
  assume ok: "rates_ok r0 u d (nat T)"
  from build_rates_tree_ok [OF assms ok] obtain R where R: "build_rates_tree r0 u d T = Inr R"
    by blast
  from build_rates_tree_cells [OF R] have sqR: "square (nat T + 1) R"
    and cellsR: "\<forall>i j. i \<le> nat T \<longrightarrow> j \<le> nat T \<longrightarrow>
       R ! i ! j = (if j \<le> i then rate_of r0 u d i j else NaN)"
    by simp_all
  from build_prices_run_ok [OF assms R]
  obtain s where s: "build_prices_run r0 u d T = Inr s" "square (nat T + 1) (p_tree s)"
    "p_reads s = concat (map row_reads (rev [0..<nat T]))"
    "\<forall>i j. i \<le> nat T \<longrightarrow> j \<le> nat T \<longrightarrow>
       p_tree s ! i ! j =
         (if i = nat T then Fin 100
          else if j \<le> i
          then step_price (R ! i ! j)
                 (p_tree s ! (i + 1) ! (j + 1)) (p_tree s ! (i + 1) ! j)
          else NaN)"
    by blast
  have tree: "build_prices_tree r0 u d T = Inr (p_tree s)"
    using s(1) by (simp add: build_prices_tree_def)
  have nan: "getitem R i j = Inr NaN \<and> getitem (p_tree s) i j = Inr NaN"
    if "i < j" "j \<le> nat T" for i j
  proof -
    from that have lt: "i < nat T + 1" "j < nat T + 1" by simp_all
    from that have "R ! i ! j = NaN" using cellsR by simp
    moreover from that have "p_tree s ! i ! j = NaN" using s(4) by simp
    ultimately show ?thesis
      using getitem_square [OF sqR lt] getitem_square [OF s(2) lt] by simp
  qed
  have reads: "\<forall>(i, j) \<in> set (p_reads s). j \<le> i"
    unfolding s(3) using all_reads_valid by blast
  from R sqR s(1,2) tree nan reads
  show "\<exists>R s. build_rates_tree r0 u d T = Inr R \<and>
           build_prices_run r0 u d T = Inr s \<and>
           build_prices_tree r0 u d T = Inr (p_tree s) \<and>
           square (nat T + 1) R \<and> square (nat T + 1) (p_tree s) \<and>
           (\<forall>i j. i < j \<longrightarrow> j \<le> nat T \<longrightarrow>
              getitem R i j = Inr NaN \<and> getitem (p_tree s) i j = Inr NaN) \<and>
           (\<forall>(i, j) \<in> set (p_reads s). j \<le> i)"
    by blast
qed

theorem invalid_cells_nan_witness:
  "(0::int) \<le> 1 \<and> rates_ok (Fin 1) (Fin 1) (Fin 1) (nat 1) \<and>
   (\<exists>R s. build_rates_tree (Fin 1) (Fin 1) (Fin 1) 1 = Inr R \<and>
          build_prices_run (Fin 1) (Fin 1) (Fin 1) 1 = Inr s \<and>
          getitem R 0 1 = Inr NaN \<and> getitem (p_tree s) 0 1 = Inr NaN \<and>
          (\<forall>(i, j) \<in> set (p_reads s). j \<le> i))"
proof -
  have h: "(0::int) \<le> 1" by simp
  have ok: "rates_ok (Fin 1) (Fin 1) (Fin 1) (nat 1)" by (rule rates_ok_bounded) simp_all
  from invalid_cells_nan [OF h, of "Fin 1" "Fin 1" "Fin 1"] ok
  obtain R s where Rs: "build_rates_tree (Fin 1) (Fin 1) (Fin 1) 1 = Inr R"
    "build_prices_run (Fin 1) (Fin 1) (Fin 1) 1 = Inr s"
    "\<forall>i j. i < j \<longrightarrow> j \<le> nat 1 \<longrightarrow>
       getitem R i j = Inr NaN \<and> getitem (p_tree s) i j = Inr NaN"
    "\<forall>(i, j) \<in> set (p_reads s). j \<le> i"
    by blast
  from Rs(3) have "getitem R 0 1 = Inr NaN" "getitem (p_tree s) 0 1 = Inr NaN"
    by simp_all
  then show ?thesis using h ok Rs(1,2,4) by blast
qed

subsection \<open>The rate of the top state and the up move\<close>




subsection \<open>The bounds of the prices\<close>




end
